theory Spec2Isabelle
  imports Complex_Main
begin

section \<open>Sliding-window rate limiter (src/utils/rate_limiter.py)\<close>

text \<open>
  Timestamps are the values of \<^verbatim>\<open>time.time()\<close>, modelled as real numbers. Every
  function that reads the clock in the source takes the value it reads as an argument.
\<close>

subsection \<open>ModelLimiter\<close>

text \<open>
  The two deques are lists with the oldest entry at the head: \<^verbatim>\<open>append\<close> adds at
  the end, \<^verbatim>\<open>popleft\<close> removes the head. The attributes \<^verbatim>\<open>minute_window\<close> and
  \<^verbatim>\<open>day_window\<close> are set once in \<^verbatim>\<open>__init__\<close> and never written again; they are
  constants here.
\<close>

record model_limiter =
  rpm :: int
  rpd :: int
  minute_requests :: "real list"
  day_requests :: "real list"

definition minute_window :: real where
  "minute_window = 60"

definition day_window :: real where
  "day_window = 86400"

definition ModelLimiter :: "int \<Rightarrow> int \<Rightarrow> model_limiter" where
  "ModelLimiter r d = \<lparr>rpm = r, rpd = d, minute_requests = [], day_requests = []\<rparr>"

text \<open>
  One of the two loops of \<^verbatim>\<open>_clean_old_requests\<close>:
  \<^verbatim>\<open>while q and now - q[0] >= window: q.popleft()\<close>.
\<close>

fun purge :: "real \<Rightarrow> real \<Rightarrow> real list \<Rightarrow> real list" where
  "purge now w [] = []"
| "purge now w (x # xs) = (if now - x \<ge> w then purge now w xs else x # xs)"

definition clean_old_requests :: "model_limiter \<Rightarrow> real \<Rightarrow> model_limiter" where
  "clean_old_requests L now =
     L\<lparr>minute_requests := purge now minute_window (minute_requests L),
       day_requests := purge now day_window (day_requests L)\<rparr>"

text \<open>
  \<^verbatim>\<open>ModelLimiter.try_acquire\<close>: the result and the limiter after the call. A denied
  call keeps the purged deques.
\<close>

definition ModelLimiter_try_acquire :: "model_limiter \<Rightarrow> real \<Rightarrow> bool \<times> model_limiter" where
  "ModelLimiter_try_acquire L now =
     (let L1 = clean_old_requests L now in
      if int (length (minute_requests L1)) < rpm L1 \<and> int (length (day_requests L1)) < rpd L1
      then (True, L1\<lparr>minute_requests := minute_requests L1 @ [now],
                      day_requests := day_requests L1 @ [now]\<rparr>)
      else (False, L1))"

text \<open>
  \<^verbatim>\<open>ModelLimiter.get_wait_time\<close>. The deques are read as they stand, without a purge.
  \<^verbatim>\<open>q[0]\<close> on an empty deque raises \<^verbatim>\<open>IndexError\<close>, which happens when the limit is
  not positive.
\<close>

datatype py_error = IndexError | KeyError



subsection \<open>RateLimiter\<close>

text \<open>
  The dictionary \<^verbatim>\<open>limiters\<close> has exactly the two keys of \<^verbatim>\<open>ModelType\<close>, so it is a
  total function. The four limits come from \<^verbatim>\<open>config.py\<close>, which reads them from the
  environment; they are parameters of the constructor here.
\<close>

datatype ModelType = PRO | FLASH

record rate_limiter =
  limiters :: "ModelType \<Rightarrow> model_limiter"
  current_model :: ModelType


definition other_model :: "ModelType \<Rightarrow> ModelType" where
  "other_model m = (if m = PRO then FLASH else PRO)"

definition switch_model :: "rate_limiter \<Rightarrow> ModelType \<times> rate_limiter" where
  "switch_model R =
     (let R' = R\<lparr>current_model := other_model (current_model R)\<rparr> in (current_model R', R'))"


section \<open>Response cache (src/utils/cache_manager.py)\<close>

text \<open>
  The \<^verbatim>\<open>OrderedDict\<close> is an association list in the dictionary's order: the head is
  the first key, which \<^verbatim>\<open>popitem(last=False)\<close> removes, and \<^verbatim>\<open>move_to_end\<close> moves a
  key behind the last one. An entry is a key with its value and insertion timestamp.
\<close>

type_synonym 'v entries = "(string \<times> 'v \<times> real) list"

record 'v cache_manager =
  cache :: "'v entries"
  enabled :: bool
  timeout :: int
  max_items :: int

text \<open>
  \<^verbatim>\<open>CACHE_ENABLED\<close>, \<^verbatim>\<open>CACHE_TIMEOUT\<close> and \<^verbatim>\<open>MAX_CACHE_ITEMS\<close> come from
  \<^verbatim>\<open>config.py\<close>, which reads them from the environment.
\<close>

definition CacheManager :: "bool \<Rightarrow> int \<Rightarrow> int \<Rightarrow> 'v cache_manager" where
  "CacheManager cache_enabled cache_timeout max_cache_items =
     \<lparr>cache = [], enabled = cache_enabled, timeout = cache_timeout, max_items = max_cache_items\<rparr>"

text \<open>\<^verbatim>\<open>del d[key]\<close>, for a key that is present.\<close>

definition od_delete :: "string \<Rightarrow> 'v entries \<Rightarrow> 'v entries" where
  "od_delete key od = filter (\<lambda>e. fst e \<noteq> key) od"

text \<open>
  \<^verbatim>\<open>d.move_to_end(key)\<close>. Both call sites have the key in the dictionary: \<^verbatim>\<open>get\<close>
  has just tested \<^verbatim>\<open>key in self._cache\<close> and \<^verbatim>\<open>set\<close> has just assigned it.
\<close>

definition od_move_to_end :: "string \<Rightarrow> 'v entries \<Rightarrow> 'v entries" where
  "od_move_to_end key od = filter (\<lambda>e. fst e \<noteq> key) od @ filter (\<lambda>e. fst e = key) od"

text \<open>
  \<^verbatim>\<open>d[key] = v\<close>: a key that is present keeps its position, a new key goes to the end.
\<close>

definition od_assign :: "string \<Rightarrow> 'v \<times> real \<Rightarrow> 'v entries \<Rightarrow> 'v entries" where
  "od_assign key v od =
     (if map_of od key = None then od @ [(key, v)]
      else map (\<lambda>e. if fst e = key then (key, v) else e) od)"

text \<open>
  The loop \<^verbatim>\<open>while len(self._cache) >= self.max_items: self._cache.popitem(last=False)\<close>.
  \<^verbatim>\<open>popitem\<close> on an empty dictionary raises \<^verbatim>\<open>KeyError\<close>, which the loop reaches
  when \<^verbatim>\<open>max_items\<close> is not positive.
\<close>

fun evict :: "int \<Rightarrow> 'v entries \<Rightarrow> py_error + 'v entries" where
  "evict m [] = (if 0 \<ge> m then Inl KeyError else Inr [])"
| "evict m (e # es) = (if int (length (e # es)) \<ge> m then evict m es else Inr (e # es))"

text \<open>
  \<^verbatim>\<open>CacheManager.get\<close> at clock value \<open>now\<close>: the returned value (\<open>None\<close> for Python's
  \<^verbatim>\<open>None\<close>) and the cache after the call.
\<close>

definition CacheManager_get :: "'v cache_manager \<Rightarrow> string \<Rightarrow> real \<Rightarrow> 'v option \<times> 'v cache_manager" where
  "CacheManager_get c key now =
     (if \<not> enabled c then (None, c)
      else case map_of (cache c) key of
        None \<Rightarrow> (None, c)
      | Some (value, timestamp) \<Rightarrow>
          if now - timestamp \<le> real_of_int (timeout c)
          then (Some value, c\<lparr>cache := od_move_to_end key (cache c)\<rparr>)
          else (None, c\<lparr>cache := od_delete key (cache c)\<rparr>))"

text \<open>
  \<^verbatim>\<open>CacheManager.set\<close> at clock value \<open>now\<close>: \<open>Inr ()\<close> when the call returns, \<open>Inl\<close> the
  exception when it raises, and the cache after the call. When \<^verbatim>\<open>popitem\<close> raises, the
  loop has emptied the dictionary.
\<close>

definition CacheManager_set ::
  "'v cache_manager \<Rightarrow> string \<Rightarrow> 'v \<Rightarrow> real \<Rightarrow> (py_error + unit) \<times> 'v cache_manager" where
  "CacheManager_set c key value now =
     (if \<not> enabled c then (Inr (), c)
      else case evict (max_items c) (cache c) of
        Inl e \<Rightarrow> (Inl e, c\<lparr>cache := []\<rparr>)
      | Inr od \<Rightarrow>
          (Inr (), c\<lparr>cache := od_move_to_end key (od_assign key (value, now) od)\<rparr>))"

definition CacheManager_clear :: "'v cache_manager \<Rightarrow> 'v cache_manager" where
  "CacheManager_clear c = c\<lparr>cache := []\<rparr>"

definition CacheManager_remove :: "'v cache_manager \<Rightarrow> string \<Rightarrow> 'v cache_manager" where
  "CacheManager_remove c key =
     (if map_of (cache c) key \<noteq> None then c\<lparr>cache := od_delete key (cache c)\<rparr> else c)"

text \<open>
  A sequence of calls on one cache. Beside the cache it keeps, for every key, the number of
  the last call that used the key: a \<^verbatim>\<open>set\<close> that stored it or a \<^verbatim>\<open>get\<close> that returned
  its value. The caller goes on after a \<^verbatim>\<open>set\<close> that raised.
\<close>

datatype 'v cache_call = SetCall string 'v real | GetCall string real

type_synonym 'v cache_run = "'v cache_manager \<times> (string \<Rightarrow> nat) \<times> nat"

fun cache_step :: "'v cache_run \<Rightarrow> 'v cache_call \<Rightarrow> 'v cache_run" where
  "cache_step (c, used, n) (SetCall key value now) =
     (case CacheManager_set c key value now of
        (Inr _, c') \<Rightarrow> (c', if enabled c then used(key := n) else used, Suc n)
      | (Inl _, c') \<Rightarrow> (c', used, Suc n))"
| "cache_step (c, used, n) (GetCall key now) =
     (case CacheManager_get c key now of
        (Some _, c') \<Rightarrow> (c', used(key := n), Suc n)
      | (None, c') \<Rightarrow> (c', used, Suc n))"

definition cache_calls :: "'v cache_manager \<Rightarrow> 'v cache_call list \<Rightarrow> 'v cache_run" where
  "cache_calls c calls = foldl cache_step (c, \<lambda>_. 0, 0) calls"

section \<open>Query orchestrator (src/gemini_client.py)\<close>

text \<open>
  A Python \<^verbatim>\<open>str\<close> is a \<open>string\<close> whose characters are the code points below 256. The
  collaborators outside the repository's code (file system, image library, HTTP, the
  generative backend), the conversation log, the rate limiter's answers and the clock are a
  record of what each call returns; an exception is the text \<^verbatim>\<open>str(e)\<close> gives for it. What
  \<^verbatim>\<open>send_query\<close> does to them is the list of events it returns, in the order of the calls.
\<close>

subsection \<open>Strings\<close>

definition lower_char :: "char \<Rightarrow> char" where
  "lower_char c =
     (let n = (of_char c :: nat) in
      if (65 \<le> n \<and> n \<le> 90) \<or> (192 \<le> n \<and> n \<le> 222 \<and> n \<noteq> 215) then char_of (n + 32) else c)"

definition py_lower :: "string \<Rightarrow> string" where
  "py_lower s = map lower_char s"

fun starts_with :: "string \<Rightarrow> string \<Rightarrow> bool" where
  "starts_with [] s = True"
| "starts_with (p # ps) [] = False"
| "starts_with (p # ps) (c # cs) = (p = c \<and> starts_with ps cs)"

text \<open>\<^verbatim>\<open>sub in s\<close>.\<close>

fun contains :: "string \<Rightarrow> string \<Rightarrow> bool" where
  "contains sub [] = (sub = [])"
| "contains sub (c # cs) = (starts_with sub (c # cs) \<or> contains sub cs)"

text \<open>\<^verbatim>\<open>s.replace(old, "")\<close>: the occurrences of \<open>old\<close> are removed from left to right.\<close>

function py_remove :: "string \<Rightarrow> string \<Rightarrow> string" where
  "py_remove old [] = []"
| "py_remove old (c # cs) =
     (if old \<noteq> [] \<and> starts_with old (c # cs) then py_remove old (drop (length old) (c # cs))
      else c # py_remove old cs)"
  by pat_completeness auto
termination
  by (relation "measure (\<lambda>(old, s). length s)") auto

definition is_space :: "char \<Rightarrow> bool" where
  "is_space c \<longleftrightarrow> (of_char c :: nat) \<in> {9, 10, 11, 12, 13, 28, 29, 30, 31, 32, 133, 160}"

definition py_strip :: "string \<Rightarrow> string" where
  "py_strip s = rev (dropWhile is_space (rev (dropWhile is_space s)))"

text \<open>\<^verbatim>\<open>sep.join(parts)\<close>.\<close>

fun py_join :: "string \<Rightarrow> string list \<Rightarrow> string" where
  "py_join sep [] = []"
| "py_join sep [x] = x"
| "py_join sep (x # y # ys) = x @ sep @ py_join sep (y # ys)"

text \<open>
  The loop \<^verbatim>\<open>for char in ['*', ACUTE, '`', '"', "'"]: text = text.replace(char, "")\<close>.
\<close>

definition strip_reserved :: "string \<Rightarrow> string" where
  "strip_reserved text =
     filter (\<lambda>c. c \<notin> set [CHR ''*'', CHR 0xB4, CHR 0x60, CHR 0x22, CHR 0x27]) text"

fun str_nat :: "nat \<Rightarrow> string" where
  "str_nat n =
     (if n < 10 then [char_of (48 + n)] else str_nat (n div 10) @ [char_of (48 + n mod 10)])"

declare str_nat.simps [simp del]

definition str_int :: "int \<Rightarrow> string" where
  "str_int i = (if i < 0 then ''-'' @ str_nat (nat (- i)) else str_nat (nat i))"

subsection \<open>The texts of the source\<close>

definition msg_specify :: string where
  "msg_specify =
     ''Por favor, especifique o que deseja pesquisar na internet.''"

definition duckduckgo_url :: string where
  "duckduckgo_url =
     ''https://duckduckgo.com/html/?q=''"

definition msg_results_header :: string where
  "msg_results_header =
     ''Resultados da pesquisa na internet:'' @ [CHR 0x0A]"

definition msg_no_results :: string where
  "msg_no_results =
     ''Nenhum resultado relevante encontrado na internet.''"

definition msg_no_access :: string where
  "msg_no_access =
     ''N'' @ [CHR 0xE3] @ ''o foi poss'' @ [CHR 0xED] @ ''vel acessar a pesquisa na internet no momento.''"

definition msg_web_error :: string where
  "msg_web_error =
     ''Erro ao realizar pesquisa na internet: ''"

definition msg_unavailable :: string where
  "msg_unavailable =
     ''Servi'' @ [CHR 0xE7] @ ''o temporariamente indispon'' @ [CHR 0xED] @ ''vel. Tempo de espera por modelo: ''"

definition prompt_header :: string where
  "prompt_header =
     ''Responda em portugu'' @ [CHR 0xEA] @ ''s do Brasil, de forma clara, objetiva e sem cumprimentos iniciais como '' @ [CHR 0x27] @ ''Ol'' @ [CHR 0xE1] @ [CHR 0x27] @ '' ou '' @ [CHR 0x27] @ ''Oi'' @ [CHR 0x27] @ ''. Considere o contexto da conversa abaixo:'' @ [CHR 0x0A]"

definition msg_blocked :: string where
  "msg_blocked =
     ''A resposta foi bloqueada por quest'' @ [CHR 0xF5] @ ''es de seguran'' @ [CHR 0xE7] @ ''a do modelo Gemini.''"

definition msg_not_processed :: string where
  "msg_not_processed =
     ''Desculpe, n'' @ [CHR 0xE3] @ ''o consegui processar sua pergunta.''"

definition error_msg :: string where
  "error_msg =
     ''Desculpe, ocorreu um erro ao processar sua pergunta.''"

subsection \<open>Collaborators and events\<close>

datatype image = Image string

datatype backend = ModelPro | ModelVision

text \<open>
  A response of the backend: its text, \<open>None\<close> when it has no attribute \<^verbatim>\<open>text\<close>, and for
  each candidate whether it has safety ratings.
\<close>

record response =
  resp_text :: "string option"
  resp_candidates :: "bool list"

record conversation =
  conv_question :: string
  conv_response :: string

text \<open>
  What the outside returns during one \<^verbatim>\<open>send_query\<close>. \<open>Inl\<close> and \<open>Some\<close> of a text stand
  for a call that raises, with the text of the exception. The calls made inside the retry
  loop take the number of the attempt, \<^verbatim>\<open>retries\<close>. \<open>getmtime\<close> and \<open>getsize\<close> give the
  text the f-string renders, \<open>None\<close> when the call raises \<^verbatim>\<open>OSError\<close>. \<open>extract_tags\<close> is
  \<^verbatim>\<open>_extract_tags\<close>, whose result depends on the iteration order of a Python set.
\<close>

record world =
  getmtime :: "string \<Rightarrow> string option"
  getsize :: "string \<Rightarrow> string option"
  md5_hexdigest :: "string \<Rightarrow> string"
  image_open :: "string \<Rightarrow> string + image"
  requests_get :: "string \<Rightarrow> string + int \<times> string"
  result_snippets :: "string \<Rightarrow> string + string list"
  extract_tags :: "string \<Rightarrow> string list"
  cache_get_time :: real
  cache_set_time :: "nat \<Rightarrow> real"
  wait_for_token :: "nat \<Rightarrow> bool"
  rate_wait_times :: "nat \<Rightarrow> string + (ModelType \<times> string) list"
  hit_add_conversation :: "string option"
  add_conversation :: "nat \<Rightarrow> string option"
  get_recent_conversations :: "nat \<Rightarrow> string + conversation list"
  generate_content :: "nat \<Rightarrow> string + response"

datatype event =
    WebGet string
  | CacheGet string
  | CacheSet string string
  | HistoryAdd string string "string list option" "string list"
  | HistoryRecent
  | WaitForToken
  | GetWaitTime
  | Generate backend string "image list"
  | Sleep nat
  | Print string
  | SaveTempResponse string

datatype outcome = Returns string | Raises string

subsection \<open>Fingerprint and images\<close>

text \<open>\<^verbatim>\<open>if image_paths:\<close> is false for \<^verbatim>\<open>None\<close> and for the empty list.\<close>

definition paths_of :: "string list option \<Rightarrow> string list" where
  "paths_of image_paths = (case image_paths of None \<Rightarrow> [] | Some ps \<Rightarrow> ps)"

text \<open>
  The body of the loop of \<^verbatim>\<open>_generate_cache_key\<close>: \<^verbatim>\<open>path:mtime:size\<close>, and the bare
  path when \<^verbatim>\<open>getmtime\<close> or \<^verbatim>\<open>getsize\<close> raises \<^verbatim>\<open>OSError\<close>.
\<close>

definition key_part :: "world \<Rightarrow> string \<Rightarrow> string" where
  "key_part w path =
     (case getmtime w path of
        None \<Rightarrow> path
      | Some mtime \<Rightarrow>
          (case getsize w path of
             None \<Rightarrow> path
           | Some sz \<Rightarrow> path @ '':'' @ mtime @ '':'' @ sz))"

definition key_string :: "world \<Rightarrow> string \<Rightarrow> string list option \<Rightarrow> string" where
  "key_string w question image_paths =
     py_join ''||'' (question # map (key_part w) (paths_of image_paths))"

definition generate_cache_key :: "world \<Rightarrow> string \<Rightarrow> string list option \<Rightarrow> string" where
  "generate_cache_key w question image_paths = md5_hexdigest w (key_string w question image_paths)"

text \<open>\<^verbatim>\<open>_process_images\<close>: the images that open, and the messages printed for the others.\<close>

fun process_images :: "world \<Rightarrow> string list \<Rightarrow> image list \<times> event list" where
  "process_images w [] = ([], [])"
| "process_images w (path # paths) =
     (case process_images w paths of
        (images, evs) \<Rightarrow>
          (case image_open w path of
             Inr img \<Rightarrow> (img # images, evs)
           | Inl msg \<Rightarrow>
               (images, Print (''Erro ao processar imagem '' @ path @ '': '' @ msg) # evs)))"

subsection \<open>The web-search branch\<close>

definition is_web_search :: "string \<Rightarrow> bool" where
  "is_web_search question \<longleftrightarrow>
     contains ''pesquise na internet'' (py_lower question) \<or>
     contains ''pesquisa na internet'' (py_lower question)"

definition web_search :: "world \<Rightarrow> string \<Rightarrow> string \<times> event list" where
  "web_search w question =
     (let query = py_strip (py_remove ''pesquisa na internet''
                    (py_remove ''pesquise na internet'' (py_lower question)))
      in if query = [] then (msg_specify, [])
         else
           (let url = duckduckgo_url @ query in
            case requests_get w url of
              Inl msg \<Rightarrow> (msg_web_error @ msg, [WebGet url])
            | Inr (status_code, body) \<Rightarrow>
                if status_code = 200 then
                  (case result_snippets w body of
                     Inl msg \<Rightarrow> (msg_web_error @ msg, [WebGet url])
                   | Inr snippets \<Rightarrow>
                       (let results = take 3 snippets in
                        if results \<noteq> []
                        then (strip_reserved (msg_results_header @ py_join [CHR 0x0A, CHR 0x0A] results),
                              [WebGet url])
                        else (msg_no_results, [WebGet url])))
                else (msg_no_access, [WebGet url])))"

subsection \<open>One attempt\<close>

definition build_prompt :: "conversation list \<Rightarrow> string \<Rightarrow> string" where
  "build_prompt historico question =
     prompt_header @
     concat (map (\<lambda>h. ''Usu'' @ [CHR 0xE1] @ ''rio: '' @ conv_question h @ [CHR 0x0A] @
                        ''Assistente: '' @ conv_response h @ [CHR 0x0A]) historico) @
     ''Usu'' @ [CHR 0xE1] @ ''rio: '' @ question @ [CHR 0x0A] @ ''Assistente:''"

definition model_value :: "ModelType \<Rightarrow> string" where
  "model_value m = (case m of PRO \<Rightarrow> ''pro'' | FLASH \<Rightarrow> ''flash'')"

definition unavailable_message :: "(ModelType \<times> string) list \<Rightarrow> string" where
  "unavailable_message wait_times =
     msg_unavailable @ py_join '', '' (map (\<lambda>(m, t). model_value m @ '': '' @ t @ ''s'') wait_times)"

definition error_text :: "py_error \<Rightarrow> string" where
  "error_text e =
     (case e of KeyError \<Rightarrow> [CHR 0x27] @ ''dictionary is empty'' @ [CHR 0x27]
              | IndexError \<Rightarrow> ''deque index out of range'')"

type_synonym attempt_result = "(string + string) \<times> string cache_manager \<times> event list"

text \<open>
  The part of the \<^verbatim>\<open>try\<close> block after \<^verbatim>\<open>generate_content\<close> has returned. \<open>Inr\<close> is the
  text the block returns, \<open>Inl\<close> the exception it raises.
\<close>

definition respond ::
  "world \<Rightarrow> string cache_manager \<Rightarrow> string \<Rightarrow> string list option \<Rightarrow> string \<Rightarrow> nat \<Rightarrow>
   response \<Rightarrow> attempt_result" where
  "respond w c question image_paths cache_key retries resp =
     (if (case resp_text resp of None \<Rightarrow> False | Some text \<Rightarrow> text \<noteq> []) then
        (let response_text = strip_reserved (the (resp_text resp)) in
         case CacheManager_set c cache_key response_text (cache_set_time w retries) of
           (Inl e, c') \<Rightarrow> (Inl (error_text e), c', [CacheSet cache_key response_text])
         | (Inr _, c') \<Rightarrow>
             (let evs = [CacheSet cache_key response_text,
                         HistoryAdd question response_text image_paths
                           (extract_tags w (question @ '' '' @ response_text))]
              in case add_conversation w retries of
                   Some msg \<Rightarrow> (Inl msg, c', evs)
                 | None \<Rightarrow> (Inr response_text, c', evs @ [SaveTempResponse response_text])))
      else if resp_candidates resp \<noteq> [] \<and> list_ex (\<lambda>b. b) (resp_candidates resp)
      then (Inr msg_blocked, c, [])
      else (Inr msg_not_processed, c, []))"

text \<open>The \<^verbatim>\<open>try\<close> block of one pass of the loop.\<close>

definition attempt ::
  "world \<Rightarrow> string cache_manager \<Rightarrow> string \<Rightarrow> string list option \<Rightarrow> string \<Rightarrow> nat \<Rightarrow>
   attempt_result" where
  "attempt w c question image_paths cache_key retries =
     (if \<not> wait_for_token w retries then
        (case rate_wait_times w retries of
           Inl msg \<Rightarrow> (Inl msg, c, [WaitForToken, GetWaitTime])
         | Inr wait_times \<Rightarrow> (Inr (unavailable_message wait_times), c, [WaitForToken, GetWaitTime]))
      else
        (case get_recent_conversations w retries of
           Inl msg \<Rightarrow> (Inl msg, c, [WaitForToken, HistoryRecent])
         | Inr historico \<Rightarrow>
             (let prompt = build_prompt historico question;
                  (images, evs_images) = process_images w (paths_of image_paths);
                  dispatch = (if paths_of image_paths \<noteq> []
                              then evs_images @ [Generate ModelVision prompt images]
                              else [Generate ModelPro prompt []]);
                  evs = [WaitForToken, HistoryRecent] @ dispatch
              in case generate_content w retries of
                   Inl msg \<Rightarrow> (Inl msg, c, evs)
                 | Inr resp \<Rightarrow>
                     (case respond w c question image_paths cache_key retries resp of
                        (r, c', evs') \<Rightarrow> (r, c', evs @ evs')))))"

subsection \<open>The retry loop and \<^verbatim>\<open>send_query\<close>\<close>

type_synonym query_result = "outcome \<times> string cache_manager \<times> event list"

definition after :: "event list \<Rightarrow> query_result \<Rightarrow> query_result" where
  "after evs res = (case res of (out, c, evs') \<Rightarrow> (out, c, evs @ evs'))"

text \<open>
  The loop \<^verbatim>\<open>while retries < max_retries\<close> with its \<^verbatim>\<open>except\<close> clause, and the three
  lines after it. \<open>last_error\<close> is \<open>None\<close> for Python's \<^verbatim>\<open>None\<close>.
\<close>

function retry_loop ::
  "world \<Rightarrow> string cache_manager \<Rightarrow> string \<Rightarrow> string list option \<Rightarrow> string \<Rightarrow> int \<Rightarrow>
   nat \<Rightarrow> string option \<Rightarrow> query_result" where
  "retry_loop w c question image_paths cache_key max_retries retries last_error =
     (if int retries < max_retries then
        (case attempt w c question image_paths cache_key retries of
           (Inr text, c', evs) \<Rightarrow> (Returns text, c', evs)
         | (Inl msg, c', evs) \<Rightarrow>
             after
               (evs @ [Print (''Erro ao enviar query: '' @ msg)] @
                (if int (Suc retries) < max_retries
                 then [Print (''Erro na requisi'' @ [CHR 0xE7, CHR 0xE3] @ ''o. Tentativa '' @
                         str_nat (Suc retries) @ '' de '' @ str_int max_retries @ ''...''),
                       Sleep (2 ^ Suc retries)]
                 else []))
               (retry_loop w c' question image_paths cache_key max_retries (Suc retries) (Some msg)))
      else
        (Returns error_msg, c,
         [Print (''Erro final: '' @ (case last_error of None \<Rightarrow> ''None'' | Some msg \<Rightarrow> msg))]))"
  by pat_completeness auto
termination
  by (relation "measure (\<lambda>(w, c, q, i, k, max_retries, retries, e). nat (max_retries - int retries))")
    auto

definition send_query ::
  "world \<Rightarrow> string cache_manager \<Rightarrow> string \<Rightarrow> string list option \<Rightarrow> int \<Rightarrow> query_result" where
  "send_query w c question image_paths max_retries =
     (if is_web_search question then
        (case web_search w question of (text, evs) \<Rightarrow> (Returns text, c, evs))
      else
        (let cache_key = generate_cache_key w question image_paths in
         case CacheManager_get c cache_key (cache_get_time w) of
           (cached_response, c') \<Rightarrow>
             if (case cached_response of None \<Rightarrow> False | Some text \<Rightarrow> text \<noteq> []) then
               (let text = the cached_response;
                    evs = [CacheGet cache_key,
                           HistoryAdd question text image_paths
                             (extract_tags w (question @ '' '' @ text))]
                in case hit_add_conversation w of
                     Some msg \<Rightarrow> (Raises msg, c', evs)
                   | None \<Rightarrow> (Returns text, c', evs))
             else
               after [CacheGet cache_key]
                 (retry_loop w c' question image_paths cache_key max_retries 0 None)))"

declare retry_loop.simps [simp del]

section \<open>Properties of the rate limiter\<close>

subsection \<open>Vocabulary of the properties\<close>

text \<open>
  A sequence of \<^verbatim>\<open>try_acquire\<close> calls on one limiter, the k-th call reading the clock
  value \<open>ts ! k\<close>. The second argument collects the timestamps of the granted calls, oldest
  first; the result is the limiter after the last call and every grant so far.
\<close>

fun acquire_calls :: "model_limiter \<Rightarrow> real list \<Rightarrow> real list \<Rightarrow> model_limiter \<times> real list" where
  "acquire_calls L G [] = (L, G)"
| "acquire_calls L G (now # ts) =
     (case ModelLimiter_try_acquire L now of
        (granted, L') \<Rightarrow> acquire_calls L' (if granted then G @ [now] else G) ts)"

text \<open>
  The number of grants in the trailing window of length \<open>w\<close> at time \<open>t\<close>: the grants that
  have happened by \<open>t\<close> and are younger than \<open>w\<close>.
\<close>

definition granted_within :: "real \<Rightarrow> real \<Rightarrow> real list \<Rightarrow> nat" where
  "granted_within w t G = length (filter (\<lambda>g. g \<le> t \<and> t - g < w) G)"







text \<open>The link between the deques and the grant history after a call at time \<open>t0\<close>.\<close>

definition tracks :: "model_limiter \<Rightarrow> real list \<Rightarrow> real \<Rightarrow> bool" where
  "tracks L G t0 \<longleftrightarrow>
     sorted G \<and> list_all (\<lambda>g. g \<le> t0) G \<and>
     minute_requests L = filter (\<lambda>g. t0 - g < minute_window) G \<and>
     day_requests L = filter (\<lambda>g. t0 - g < day_window) G"

definition within_limits :: "int \<Rightarrow> int \<Rightarrow> real list \<Rightarrow> bool" where
  "within_limits r d G \<longleftrightarrow>
     (\<forall>t. int (granted_within minute_window t G) \<le> r \<and> int (granted_within day_window t G) \<le> d)"

subsection \<open>Purging a sorted deque\<close>

lemma window_pos: "0 < minute_window" "0 < day_window"
  by (simp_all add: minute_window_def day_window_def)

lemma purge_sorted:
  "sorted xs \<Longrightarrow> purge now w xs = filter (\<lambda>g. now - g < w) xs"
proof (induction xs)
  case Nil
  then show ?case by simp
next
  case (Cons x xs)
  show ?case
  proof (cases "now - x \<ge> w")
    case True
    with Cons show ?thesis by simp
  next
    case False
    with Cons.prems have "\<forall>y\<in>set (x # xs). now - y < w" by auto
    then have "filter (\<lambda>g. now - g < w) (x # xs) = x # xs"
      by (simp only: filter_id_conv)
    with False show ?thesis by simp
  qed
qed

lemma purge_window_later:
  assumes "sorted G" "t0 \<le> now"
  shows "purge now w (filter (\<lambda>g. t0 - g < w) G) = filter (\<lambda>g. now - g < w) G"
proof -
  have "sorted (filter (\<lambda>g. t0 - g < w) G)"
    using assms(1) by (rule sorted_wrt_filter)
  then have "purge now w (filter (\<lambda>g. t0 - g < w) G)
      = filter (\<lambda>g. now - g < w) (filter (\<lambda>g. t0 - g < w) G)"
    by (rule purge_sorted)
  also have "\<dots> = filter (\<lambda>g. now - g < w \<and> t0 - g < w) G"
    by (simp add: conj_commute)
  also have "\<dots> = filter (\<lambda>g. now - g < w) G"
    using assms(2) by (intro filter_cong) auto
  finally show ?thesis .
qed

lemma tracks_try_acquire:
  assumes "tracks L G t0" "t0 \<le> now" "ModelLimiter_try_acquire L now = (granted, L')"
  shows "tracks L' (if granted then G @ [now] else G) now"
proof -
  from assms(1) have srt: "sorted G" and le: "\<forall>g\<in>set G. g \<le> t0"
    and m: "minute_requests L = filter (\<lambda>g. t0 - g < minute_window) G"
    and d: "day_requests L = filter (\<lambda>g. t0 - g < day_window) G"
    by (simp_all add: tracks_def list_all_iff)
  have pm: "purge now minute_window (minute_requests L) = filter (\<lambda>g. now - g < minute_window) G"
    unfolding m using srt assms(2) by (rule purge_window_later)
  have pd: "purge now day_window (day_requests L) = filter (\<lambda>g. now - g < day_window) G"
    unfolding d using srt assms(2) by (rule purge_window_later)
  have le': "\<forall>g\<in>set G. g \<le> now"
    using le assms(2) by auto
  have srt': "sorted (G @ [now])"
    using srt le' by (simp add: sorted_append)
  show ?thesis
  proof (cases granted)
    case True
    with assms(3) have "L' = (clean_old_requests L now)
        \<lparr>minute_requests := minute_requests (clean_old_requests L now) @ [now],
         day_requests := day_requests (clean_old_requests L now) @ [now]\<rparr>"
      by (simp add: ModelLimiter_try_acquire_def Let_def split: if_splits)
    then have "minute_requests L' = filter (\<lambda>g. now - g < minute_window) (G @ [now])"
      and "day_requests L' = filter (\<lambda>g. now - g < day_window) (G @ [now])"
      by (simp_all add: clean_old_requests_def pm pd window_pos)
    with True srt' le' show ?thesis
      by (simp add: tracks_def list_all_iff)
  next
    case False
    with assms(3) have "L' = clean_old_requests L now"
      by (simp add: ModelLimiter_try_acquire_def Let_def split: if_splits)
    then have "minute_requests L' = filter (\<lambda>g. now - g < minute_window) G"
      and "day_requests L' = filter (\<lambda>g. now - g < day_window) G"
      by (simp_all add: clean_old_requests_def pm pd)
    with False srt le' show ?thesis
      by (simp add: tracks_def list_all_iff)
  qed
qed

subsection \<open>Counting grants in a trailing window\<close>

lemma length_filter_mono:
  "(\<And>x. x \<in> set xs \<Longrightarrow> P x \<Longrightarrow> Q x) \<Longrightarrow> length (filter P xs) \<le> length (filter Q xs)"
  by (induction xs) auto

lemma granted_within_snoc_before:
  "t < now \<Longrightarrow> granted_within w t (G @ [now]) = granted_within w t G"
  by (simp add: granted_within_def)

lemma granted_within_snoc_after:
  assumes "now \<le> t"
  shows "granted_within w t (G @ [now]) \<le> Suc (length (filter (\<lambda>g. now - g < w) G))"
proof -
  have "length (filter (\<lambda>g. g \<le> t \<and> t - g < w) G) \<le> length (filter (\<lambda>g. now - g < w) G)"
    using assms by (intro length_filter_mono) auto
  then show ?thesis
    by (simp add: granted_within_def)
qed

lemma granted_within_grant:
  assumes "\<And>t. int (granted_within w t G) \<le> n"
    and "int (length (filter (\<lambda>g. now - g < w) G)) < n"
  shows "int (granted_within w t (G @ [now])) \<le> n"
proof (cases "t < now")
  case True
  then show ?thesis
    using assms(1) by (simp add: granted_within_snoc_before)
next
  case False
  then have "granted_within w t (G @ [now]) \<le> Suc (length (filter (\<lambda>g. now - g < w) G))"
    by (intro granted_within_snoc_after) simp
  with assms(2) show ?thesis by linarith
qed

lemma try_acquire_limits [simp]:
  "rpm (snd (ModelLimiter_try_acquire L now)) = rpm L"
  "rpd (snd (ModelLimiter_try_acquire L now)) = rpd L"
  by (simp_all add: ModelLimiter_try_acquire_def clean_old_requests_def Let_def)

lemma try_acquire_granted_iff:
  "fst (ModelLimiter_try_acquire L now) \<longleftrightarrow>
     int (length (purge now minute_window (minute_requests L))) < rpm L \<and>
     int (length (purge now day_window (day_requests L))) < rpd L"
  by (simp add: ModelLimiter_try_acquire_def clean_old_requests_def Let_def)

lemma within_limits_try_acquire:
  assumes "tracks L G t0" "t0 \<le> now" "within_limits (rpm L) (rpd L) G"
    and "ModelLimiter_try_acquire L now = (granted, L')"
  shows "within_limits (rpm L) (rpd L) (if granted then G @ [now] else G)"
proof (cases granted)
  case False
  with assms(3) show ?thesis by simp
next
  case True
  from assms(1) have srt: "sorted G"
    and m: "minute_requests L = filter (\<lambda>g. t0 - g < minute_window) G"
    and d: "day_requests L = filter (\<lambda>g. t0 - g < day_window) G"
    by (simp_all add: tracks_def)
  have pm: "purge now minute_window (minute_requests L) = filter (\<lambda>g. now - g < minute_window) G"
    unfolding m using srt assms(2) by (rule purge_window_later)
  have pd: "purge now day_window (day_requests L) = filter (\<lambda>g. now - g < day_window) G"
    unfolding d using srt assms(2) by (rule purge_window_later)
  from True assms(4) have "fst (ModelLimiter_try_acquire L now)" by simp
  then have room: "int (length (filter (\<lambda>g. now - g < minute_window) G)) < rpm L"
      "int (length (filter (\<lambda>g. now - g < day_window) G)) < rpd L"
    by (simp_all add: try_acquire_granted_iff pm pd)
  have "int (granted_within minute_window t (G @ [now])) \<le> rpm L" for t
    using assms(3) room(1) by (intro granted_within_grant) (simp_all add: within_limits_def)
  moreover have "int (granted_within day_window t (G @ [now])) \<le> rpd L" for t
    using assms(3) room(2) by (intro granted_within_grant) (simp_all add: within_limits_def)
  ultimately show ?thesis
    using True by (simp add: within_limits_def)
qed

lemma acquire_calls_invariant:
  assumes "tracks L G t0" "within_limits (rpm L) (rpd L) G" "sorted (t0 # ts)"
  shows "tracks (fst (acquire_calls L G ts)) (snd (acquire_calls L G ts)) (last (t0 # ts)) \<and>
         within_limits (rpm L) (rpd L) (snd (acquire_calls L G ts))"
  using assms
proof (induction ts arbitrary: L G t0)
  case Nil
  then show ?case by simp
next
  case (Cons now ts)
  obtain granted L' where acq: "ModelLimiter_try_acquire L now = (granted, L')"
    by (cases "ModelLimiter_try_acquire L now")
  let ?G' = "if granted then G @ [now] else G"
  from Cons.prems(3) have le: "t0 \<le> now" and srt: "sorted (now # ts)"
    by simp_all
  have lim: "rpm L' = rpm L" "rpd L' = rpd L"
    using try_acquire_limits [of L now] acq by simp_all
  have t': "tracks L' ?G' now"
    using Cons.prems(1) le acq by (rule tracks_try_acquire)
  have w': "within_limits (rpm L') (rpd L') ?G'"
    unfolding lim using Cons.prems(1) le Cons.prems(2) acq by (rule within_limits_try_acquire)
  from Cons.IH [OF t' w' srt] show ?case
    by (simp add: acq lim)
qed

lemma tracks_initial: "tracks (ModelLimiter r d) [] t0"
  by (simp add: tracks_def ModelLimiter_def)

lemma within_limits_initial: "0 \<le> r \<Longrightarrow> 0 \<le> d \<Longrightarrow> within_limits r d []"
  by (simp add: within_limits_def granted_within_def)

lemma acquire_calls_fresh:
  assumes "sorted ts" "0 \<le> r" "0 \<le> d"
  shows "within_limits r d (snd (acquire_calls (ModelLimiter r d) [] ts))"
proof (cases ts)
  case Nil
  with assms show ?thesis by (simp add: within_limits_initial)
next
  case (Cons t0 ts')
  have "sorted (t0 # ts)"
    using assms(1) Cons by simp
  moreover have "within_limits (rpm (ModelLimiter r d)) (rpd (ModelLimiter r d)) []"
    using assms(2,3) by (simp add: within_limits_initial ModelLimiter_def)
  ultimately show ?thesis
    using acquire_calls_invariant [OF tracks_initial, of r d t0 ts]
    by (simp add: ModelLimiter_def)
qed

subsection \<open>The wait time of a reachable limiter\<close>





lemma acquire_calls_limits [simp]:
  "rpm (fst (acquire_calls L G ts)) = rpm L" "rpd (fst (acquire_calls L G ts)) = rpd L"
proof (induction ts arbitrary: L G)
  case Nil
  { case 1 show ?case by simp }
  { case 2 show ?case by simp }
next
  case (Cons now ts)
  { case 1 show ?case using Cons(1) [of "snd (ModelLimiter_try_acquire L now)"]
       by (simp add: split_beta) }
  { case 2 show ?case using Cons(2) [of "snd (ModelLimiter_try_acquire L now)"]
       by (simp add: split_beta) }
qed





subsection \<open>The two tiers\<close>



lemma other_model_neq [simp]: "other_model m \<noteq> m" "m \<noteq> other_model m"
  by (cases m; simp add: other_model_def)+

section \<open>Properties of the response cache\<close>

subsection \<open>Lookups in the ordered dictionary\<close>

lemma map_of_filter_other:
  "map_of (filter (\<lambda>e. fst e \<noteq> k) xs @ ys) k = map_of ys k"
  by (induction xs) auto

lemma map_of_od_delete [simp]: "map_of (od_delete k od) k = None"
  using map_of_filter_other [of k od "[]"] by (simp add: od_delete_def)

lemma map_of_filter_same:
  "map_of (filter (\<lambda>e. fst e = k) xs) k = map_of xs k"
  by (induction xs) auto

lemma map_of_od_move_to_end [simp]: "map_of (od_move_to_end k od) k = map_of od k"
  by (simp only: od_move_to_end_def map_of_filter_other map_of_filter_same)

lemma map_of_od_assign [simp]: "map_of (od_assign k v od) k = Some v"
proof (cases "map_of od k")
  case None
  then show ?thesis by (simp add: od_assign_def map_add_def)
next
  case (Some w)
  have "map_of xs k = Some w' \<Longrightarrow>
        map_of (map (\<lambda>e. if fst e = k then (k, v) else e) xs) k = Some v" for xs :: "'a entries" and w'
    by (induction xs) (auto split: if_splits)
  with Some show ?thesis by (simp add: od_assign_def)
qed

lemma evict_returns:
  "1 \<le> m \<Longrightarrow> \<exists>kept. evict m od = Inr kept"
  by (induction od) auto

lemma set_enabled_returns:
  assumes "enabled c" "1 \<le> max_items c"
  shows "\<exists>kept. evict (max_items c) (cache c) = Inr kept \<and>
     CacheManager_set c key v t =
       (Inr (), c\<lparr>cache := od_move_to_end key (od_assign key (v, t) kept)\<rparr>)"
proof -
  from evict_returns [OF assms(2)] obtain kept where "evict (max_items c) (cache c) = Inr kept"
    by blast
  with assms(1) show ?thesis by (simp add: CacheManager_set_def)
qed

subsection \<open>Order of the dictionary and order of use\<close>

text \<open>
  The entries stand in the order of their last use, and every use is older than the
  number of the next call.
\<close>

definition recency_ordered :: "(string \<Rightarrow> nat) \<Rightarrow> nat \<Rightarrow> 'v entries \<Rightarrow> bool" where
  "recency_ordered used n od \<longleftrightarrow>
     sorted_wrt (\<lambda>a b. used (fst a) < used (fst b)) od \<and> list_all (\<lambda>e. used (fst e) < n) od"

lemma recency_ordered_distinct:
  "recency_ordered used n od \<Longrightarrow> distinct (map fst od)"
  unfolding recency_ordered_def by (induction od) auto

lemma filter_key_distinct:
  "distinct (map fst od) \<Longrightarrow> map_of od k = Some v \<Longrightarrow> filter (\<lambda>e. fst e = k) od = [(k, v)]"
proof (induction od)
  case Nil
  then show ?case by simp
next
  case (Cons e od)
  show ?case
  proof (cases "fst e = k")
    case True
    with Cons.prems have "e = (k, v)" by (cases e) simp
    moreover from True Cons.prems(1) have "k \<notin> fst ` set od" by simp
    then have "\<forall>x\<in>set od. fst x \<noteq> k" by (metis imageI)
    then have "filter (\<lambda>e. fst e = k) od = []" by (simp add: filter_empty_conv)
    ultimately show ?thesis by simp
  next
    case False
    with Cons show ?thesis by (cases e) auto
  qed
qed

lemma od_move_to_end_present:
  "distinct (map fst od) \<Longrightarrow> map_of od k = Some v \<Longrightarrow>
     od_move_to_end k od = od_delete k od @ [(k, v)]"
  by (simp add: od_move_to_end_def od_delete_def filter_key_distinct)

lemma od_delete_assign:
  "od_delete k (od_assign k v od) = od_delete k od"
proof -
  have "filter (\<lambda>e. fst e \<noteq> k) (map (\<lambda>e. if fst e = k then (k, v) else e) od)
      = filter (\<lambda>e. fst e \<noteq> k) od"
    by (induction od) auto
  then show ?thesis
    by (simp add: od_delete_def od_assign_def)
qed

lemma distinct_od_assign:
  "distinct (map fst od) \<Longrightarrow> distinct (map fst (od_assign k v od))"
proof (cases "map_of od k")
  case None
  assume "distinct (map fst od)"
  moreover from None have "k \<notin> fst ` set od"
    by (simp add: map_of_eq_None_iff)
  ultimately show ?thesis
    using None by (simp add: od_assign_def)
next
  case (Some w)
  assume d: "distinct (map fst od)"
  have "map fst (map (\<lambda>e. if fst e = k then (k, v) else e) od) = map fst od"
    by (induction od) auto
  with d have "distinct (map fst (map (\<lambda>e. if fst e = k then (k, v) else e) od))"
    by (simp only:)
  with Some show ?thesis
    by (simp add: od_assign_def del: map_map)
qed

lemma set_result_cache:
  assumes "distinct (map fst kept)"
  shows "od_move_to_end k (od_assign k v kept) = od_delete k kept @ [(k, v)]"
  using od_move_to_end_present [OF distinct_od_assign [OF assms], of k v k v]
  by (simp add: od_delete_assign)

lemma recency_ordered_use:
  assumes "recency_ordered used n od"
  shows "recency_ordered (used(k := n)) (Suc n) (od_delete k od @ [(k, v)])"
proof -
  from assms have srt: "sorted_wrt (\<lambda>a b. used (fst a) < used (fst b)) od"
    and old: "\<forall>e\<in>set od. used (fst e) < n"
    by (simp_all add: recency_ordered_def list_all_iff)
  have "sorted_wrt (\<lambda>a b. used (fst a) < used (fst b)) (od_delete k od)"
    unfolding od_delete_def using srt by (rule sorted_wrt_filter)
  then have "sorted_wrt (\<lambda>a b. (used(k := n)) (fst a) < (used(k := n)) (fst b)) (od_delete k od)"
    by (rule sorted_wrt_mono_rel [rotated]) (auto simp: od_delete_def)
  moreover have "\<forall>e\<in>set (od_delete k od). (used(k := n)) (fst e) < n"
    using old by (auto simp: od_delete_def)
  ultimately show ?thesis
    by (auto simp: recency_ordered_def sorted_wrt_append list_all_iff less_Suc_eq)
qed

lemma recency_ordered_delete:
  assumes "recency_ordered used n od"
  shows "recency_ordered used (Suc n) (od_delete k od)"
proof -
  from assms have srt: "sorted_wrt (\<lambda>a b. used (fst a) < used (fst b)) od"
    and old: "\<forall>e\<in>set od. used (fst e) < n"
    by (simp_all add: recency_ordered_def list_all_iff)
  have "sorted_wrt (\<lambda>a b. used (fst a) < used (fst b)) (od_delete k od)"
    unfolding od_delete_def using srt by (rule sorted_wrt_filter)
  with old show ?thesis
    by (auto simp: recency_ordered_def list_all_iff od_delete_def less_Suc_eq)
qed

lemma recency_ordered_later:
  "recency_ordered used n od \<Longrightarrow> recency_ordered used (Suc n) od"
  by (auto simp: recency_ordered_def list_all_iff less_Suc_eq)

lemma recency_ordered_suffix:
  "recency_ordered used n (evicted @ kept) \<Longrightarrow> recency_ordered used n kept"
  by (auto simp: recency_ordered_def sorted_wrt_append)

lemma recency_ordered_split:
  "recency_ordered used n (evicted @ kept) \<Longrightarrow>
     \<forall>e\<in>set evicted. \<forall>e'\<in>set kept. used (fst e) < used (fst e')"
  by (auto simp: recency_ordered_def sorted_wrt_append)

subsection \<open>The eviction loop\<close>

lemma evict_kept:
  "evict m od = Inr kept \<Longrightarrow>
     \<exists>evicted. od = evicted @ kept \<and> (evicted \<noteq> [] \<longrightarrow> m \<le> int (length od)) \<and>
       int (length kept) < m"
proof (induction od)
  case Nil
  then show ?case by (auto split: if_splits)
next
  case (Cons e od)
  show ?case
  proof (cases "int (length (e # od)) \<ge> m")
    case True
    with Cons.prems have "evict m od = Inr kept" by simp
    from Cons.IH [OF this] obtain evicted where
      "od = evicted @ kept" "int (length kept) < m" by blast
    with True show ?thesis
      by (intro exI [of _ "e # evicted"]) simp
  next
    case False
    with Cons.prems have "kept = e # od" by simp
    with False show ?thesis
      by (intro exI [of _ "[]"]) simp
  qed
qed

lemma evict_raises: "evict m od = Inl e \<Longrightarrow> m \<le> 0"
  by (induction od) (auto split: if_splits)

lemma length_od_delete_le: "length (od_delete k od) \<le> length od"
  by (simp add: od_delete_def)

subsection \<open>Every call keeps the cache bounded and ordered by use\<close>

definition cache_inv :: "bool \<Rightarrow> int \<Rightarrow> int \<Rightarrow> 'v cache_run \<Rightarrow> bool" where
  "cache_inv en tmo m s \<longleftrightarrow>
     (case s of (c, used, n) \<Rightarrow>
        enabled c = en \<and> timeout c = tmo \<and> max_items c = m \<and>
        int (length (cache c)) \<le> m \<and> recency_ordered used n (cache c))"

lemma length_od_move_to_end [simp]: "length (od_move_to_end k od) = length od"
  using sum_length_filter_compl [of "\<lambda>e. fst e = k" od]
  by (simp add: od_move_to_end_def)

lemma set_call_returns:
  assumes "enabled c" "recency_ordered used n (cache c)"
    and "CacheManager_set c key v t = (Inr u, c')"
  shows "\<exists>evicted kept. cache c = evicted @ kept \<and>
     c' = c\<lparr>cache := od_delete key kept @ [(key, v, t)]\<rparr> \<and>
     (evicted \<noteq> [] \<longrightarrow> max_items c \<le> int (length (cache c))) \<and>
     int (length kept) < max_items c \<and>
     (\<forall>e\<in>set evicted. \<forall>e'\<in>set kept. used (fst e) < used (fst e'))"
proof -
  from assms(1,3) obtain kept where ev: "evict (max_items c) (cache c) = Inr kept"
    and c': "c' = c\<lparr>cache := od_move_to_end key (od_assign key (v, t) kept)\<rparr>"
    by (auto simp: CacheManager_set_def split: sum.splits)
  from evict_kept [OF ev] obtain evicted where
    sp: "cache c = evicted @ kept" "evicted \<noteq> [] \<longrightarrow> max_items c \<le> int (length (cache c))"
      "int (length kept) < max_items c"
    by blast
  from assms(2) sp(1) have ro: "recency_ordered used n kept"
    and older: "\<forall>e\<in>set evicted. \<forall>e'\<in>set kept. used (fst e) < used (fst e')"
    using recency_ordered_suffix [of used n evicted kept]
      recency_ordered_split [of used n evicted kept] by simp_all
  have "od_move_to_end key (od_assign key (v, t) kept) = od_delete key kept @ [(key, v, t)]"
    using recency_ordered_distinct [OF ro] by (rule set_result_cache)
  with c' have c'': "c' = c\<lparr>cache := od_delete key kept @ [(key, v, t)]\<rparr>"
    by simp
  from sp(1) c'' sp(2,3) older show ?thesis
    by (intro exI [of _ evicted] exI [of _ kept] conjI)
qed

lemma cache_step_inv:
  assumes "0 \<le> m" "cache_inv en tmo m s"
  shows "cache_inv en tmo m (cache_step s call)"
proof -
  obtain c used n where s: "s = (c, used, n)" by (cases s)
  from assms(2) have f: "enabled c = en" "timeout c = tmo" "max_items c = m"
    and len: "int (length (cache c)) \<le> m" and ro: "recency_ordered used n (cache c)"
    by (simp_all add: cache_inv_def s)
  show ?thesis
  proof (cases call)
    case (SetCall key v t)
    show ?thesis
    proof (cases "enabled c")
      case False
      with f len ro show ?thesis
        by (simp add: s SetCall CacheManager_set_def cache_inv_def recency_ordered_later)
    next
      case True
      obtain r c' where r: "CacheManager_set c key v t = (r, c')"
        by (cases "CacheManager_set c key v t")
      show ?thesis
      proof (cases r)
        case (Inl e)
        with r True have "c' = c\<lparr>cache := []\<rparr>"
          by (auto simp: CacheManager_set_def split: sum.splits)
        with Inl r f assms(1) show ?thesis
          by (simp add: s SetCall cache_inv_def recency_ordered_def)
      next
        case (Inr u)
        from set_call_returns [OF True ro r [unfolded Inr]] obtain evicted kept where
          k: "cache c = evicted @ kept" "c' = c\<lparr>cache := od_delete key kept @ [(key, v, t)]\<rparr>"
            "int (length kept) < max_items c"
          by blast
        have "recency_ordered used n kept"
          using ro k(1) recency_ordered_suffix [of used n evicted kept] by simp
        then have "recency_ordered (used(key := n)) (Suc n) (od_delete key kept @ [(key, v, t)])"
          by (rule recency_ordered_use)
        moreover have "int (length (od_delete key kept @ [(key, v, t)])) \<le> m"
          using k(3) f(3) length_od_delete_le [of key kept] by simp
        ultimately show ?thesis
          using Inr r True f k(2) by (simp add: s SetCall cache_inv_def)
      qed
    qed
  next
    case (GetCall key t)
    show ?thesis
    proof (cases "enabled c \<and> map_of (cache c) key \<noteq> None")
      case False
      then have "CacheManager_get c key t = (None, c)"
        by (cases "map_of (cache c) key") (simp_all add: CacheManager_get_def)
      with f len ro show ?thesis
        by (simp add: s GetCall cache_inv_def recency_ordered_later)
    next
      case True
      then obtain v ts where look: "map_of (cache c) key = Some (v, ts)" by auto
      show ?thesis
      proof (cases "t - ts \<le> real_of_int (timeout c)")
        case fresh: True
        have mv: "od_move_to_end key (cache c) = od_delete key (cache c) @ [(key, v, ts)]"
          using recency_ordered_distinct [OF ro] look by (rule od_move_to_end_present)
        have "CacheManager_get c key t = (Some v, c\<lparr>cache := od_move_to_end key (cache c)\<rparr>)"
          using True look fresh by (simp add: CacheManager_get_def)
        moreover have "recency_ordered (used(key := n)) (Suc n) (od_move_to_end key (cache c))"
          unfolding mv using ro by (rule recency_ordered_use)
        ultimately show ?thesis
          using f len by (simp add: s GetCall cache_inv_def)
      next
        case False
        then have "CacheManager_get c key t = (None, c\<lparr>cache := od_delete key (cache c)\<rparr>)"
          using True look by (simp add: CacheManager_get_def)
        moreover have "recency_ordered used (Suc n) (od_delete key (cache c))"
          using ro by (rule recency_ordered_delete)
        moreover have "int (length (od_delete key (cache c))) \<le> m"
          using len length_od_delete_le [of key "cache c"] by simp
        ultimately show ?thesis
          using f by (simp add: s GetCall cache_inv_def)
      qed
    qed
  qed
qed

lemma cache_steps_inv:
  "0 \<le> m \<Longrightarrow> cache_inv en tmo m s \<Longrightarrow> cache_inv en tmo m (foldl cache_step s calls)"
  by (induction calls arbitrary: s) (simp_all add: cache_step_inv)

lemma cache_calls_inv:
  assumes "0 \<le> m"
  shows "cache_inv en tmo m (cache_calls (CacheManager en tmo m) calls)"
  unfolding cache_calls_def using assms
  by (intro cache_steps_inv) (simp_all add: cache_inv_def CacheManager_def recency_ordered_def)

section \<open>Properties of the orchestrator\<close>

subsection \<open>Vocabulary\<close>

fun is_web_event :: "event \<Rightarrow> bool" where
  "is_web_event (WebGet url) = True"
| "is_web_event e = False"

text \<open>A world in which every collaborator answers and nothing raises.\<close>

definition quiet_world :: world where
  "quiet_world =
     \<lparr>getmtime = (\<lambda>p. Some ''1700000000.0''), getsize = (\<lambda>p. Some ''1024''),
      md5_hexdigest = (\<lambda>s. s), image_open = (\<lambda>p. Inr (Image p)),
      requests_get = (\<lambda>url. Inr (200, ''html'')),
      result_snippets = (\<lambda>body. Inr [''um'', ''dois'', ''tr*s'', ''quatro'']),
      extract_tags = (\<lambda>s. []),
      cache_get_time = 0, cache_set_time = (\<lambda>r. 0),
      wait_for_token = (\<lambda>r. True), rate_wait_times = (\<lambda>r. Inr []),
      hit_add_conversation = None, add_conversation = (\<lambda>r. None),
      get_recent_conversations = (\<lambda>r. Inr []),
      generate_content = (\<lambda>r. Inr \<lparr>resp_text = Some ''ok'', resp_candidates = []\<rparr>)\<rparr>"

subsection \<open>The web-search branch\<close>

lemma web_search_events: "list_all is_web_event (snd (web_search w question))"
  by (simp add: web_search_def Let_def split: sum.splits prod.splits)

subsection \<open>The cache-hit path\<close>

lemma get_live:
  assumes "enabled c" "map_of (cache c) key = Some (text, ts)"
    and "now - ts \<le> real_of_int (timeout c)"
  shows "CacheManager_get c key now = (Some text, c\<lparr>cache := od_move_to_end key (cache c)\<rparr>)"
  using assms by (simp add: CacheManager_get_def)

lemma send_query_hit:
  assumes "\<not> is_web_search question"
    and "CacheManager_get c (generate_cache_key w question image_paths) (cache_get_time w) = (Some text, c')"
    and "text \<noteq> []"
  shows "send_query w c question image_paths max_retries =
     ((case hit_add_conversation w of Some msg \<Rightarrow> Raises msg | None \<Rightarrow> Returns text), c',
      [CacheGet (generate_cache_key w question image_paths),
       HistoryAdd question text image_paths (extract_tags w (question @ '' '' @ text))])"
  using assms by (simp add: send_query_def Let_def split: option.splits)

lemma send_query_miss:
  assumes "\<not> is_web_search question"
    and "CacheManager_get c (generate_cache_key w question image_paths) (cache_get_time w) = (cached, c')"
    and "cached = None \<or> cached = Some []"
  shows "send_query w c question image_paths max_retries =
     after [CacheGet (generate_cache_key w question image_paths)]
       (retry_loop w c' question image_paths (generate_cache_key w question image_paths)
          max_retries 0 None)"
  using assms by (auto simp: send_query_def Let_def)

lemma get_keeps_config [simp]:
  "enabled (snd (CacheManager_get c key now)) = enabled c"
  "timeout (snd (CacheManager_get c key now)) = timeout c"
  "max_items (snd (CacheManager_get c key now)) = max_items c"
  by (simp_all add: CacheManager_get_def split: option.splits)

lemma key_string_same_metadata:
  assumes "getmtime w1 = getmtime w" "getsize w1 = getsize w"
  shows "key_string w1 question image_paths = key_string w question image_paths"
proof -
  have "key_part w1 = key_part w"
    by (intro ext) (simp only: key_part_def assms)
  then show ?thesis by (simp add: key_string_def)
qed

lemma respond_cached:
  assumes "resp_text resp = Some t" "strip_reserved t \<noteq> []" "enabled c" "1 \<le> max_items c"
    and "add_conversation w r = None"
  shows "\<exists>c'. respond w c question image_paths key r resp =
           (Inr (strip_reserved t), c',
            [CacheSet key (strip_reserved t),
             HistoryAdd question (strip_reserved t) image_paths
               (extract_tags w (question @ '' '' @ strip_reserved t)),
             SaveTempResponse (strip_reserved t)]) \<and>
         enabled c' \<and> timeout c' = timeout c \<and>
         map_of (cache c') key = Some (strip_reserved t, cache_set_time w r)"
proof -
  from assms(2) have t: "t \<noteq> []" by (auto simp: strip_reserved_def)
  from set_enabled_returns [OF assms(3,4), of key "strip_reserved t" "cache_set_time w r"]
  obtain kept where s: "CacheManager_set c key (strip_reserved t) (cache_set_time w r) =
      (Inr (), c\<lparr>cache := od_move_to_end key (od_assign key (strip_reserved t, cache_set_time w r) kept)\<rparr>)"
    by blast
  show ?thesis
    using assms(1,3,5) t s by (simp add: respond_def Let_def)
qed

lemma attempt_cached:
  assumes "wait_for_token w r" "get_recent_conversations w r = Inr h"
    and "generate_content w r = Inr resp"
    and "resp_text resp = Some t" "strip_reserved t \<noteq> []" "enabled c" "1 \<le> max_items c"
    and "add_conversation w r = None"
  shows "\<exists>c' evs. attempt w c question image_paths key r = (Inr (strip_reserved t), c', evs) \<and>
         enabled c' \<and> timeout c' = timeout c \<and>
         map_of (cache c') key = Some (strip_reserved t, cache_set_time w r)"
proof -
  from respond_cached [OF assms(4-8), of question image_paths key]
  obtain c' evs' where r: "respond w c question image_paths key r resp = (Inr (strip_reserved t), c', evs')"
    and c': "enabled c'" "timeout c' = timeout c"
      "map_of (cache c') key = Some (strip_reserved t, cache_set_time w r)"
    by blast
  have "\<exists>evs. attempt w c question image_paths key r = (Inr (strip_reserved t), c', evs)"
    using assms(1-3) r by (simp add: attempt_def Let_def split: prod.splits)
  with c' show ?thesis by blast
qed

lemma first_call_cached:
  assumes nw: "\<not> is_web_search question"
    and miss: "fst (CacheManager_get c (generate_cache_key w1 question image_paths) (cache_get_time w1)) = None"
    and cfg: "enabled c" "1 \<le> max_items c" "0 < max_retries"
    and ok: "wait_for_token w1 0" "get_recent_conversations w1 0 = Inr h"
      "generate_content w1 0 = Inr resp" "resp_text resp = Some t" "strip_reserved t \<noteq> []"
      "add_conversation w1 0 = None"
  shows "\<exists>c1 evs1. send_query w1 c question image_paths max_retries = (Returns (strip_reserved t), c1, evs1) \<and>
         enabled c1 \<and> timeout c1 = timeout c \<and>
         map_of (cache c1) (generate_cache_key w1 question image_paths)
           = Some (strip_reserved t, cache_set_time w1 0)"
proof -
  let ?key = "generate_cache_key w1 question image_paths"
  obtain c0 where g: "CacheManager_get c ?key (cache_get_time w1) = (None, c0)"
    using miss by (cases "CacheManager_get c ?key (cache_get_time w1)") simp
  have c0: "enabled c0" "1 \<le> max_items c0" "timeout c0 = timeout c"
    using get_keeps_config [of c ?key "cache_get_time w1"] g cfg(1,2) by simp_all
  from attempt_cached [OF ok(1-5) c0(1,2) ok(6), of question image_paths ?key]
  obtain c1 evs where a: "attempt w1 c0 question image_paths ?key 0 = (Inr (strip_reserved t), c1, evs)"
    and c1: "enabled c1" "timeout c1 = timeout c0"
      "map_of (cache c1) ?key = Some (strip_reserved t, cache_set_time w1 0)"
    by blast
  have "retry_loop w1 c0 question image_paths ?key max_retries 0 None = (Returns (strip_reserved t), c1, evs)"
    using cfg(3) a by (subst retry_loop.simps) simp
  then have "send_query w1 c question image_paths max_retries =
      (Returns (strip_reserved t), c1, CacheGet ?key # evs)"
    using send_query_miss [OF nw g] by (simp add: after_def)
  with c1 c0(3) show ?thesis by simp
qed

subsection \<open>A concrete question\<close>

lemma lower_oi: "py_lower ''oi'' = ''oi''"
  by code_simp

lemma not_web_oi: "\<not> is_web_search ''oi''"
  unfolding is_web_search_def lower_oi by simp

lemmas run_defs = send_query_def generate_cache_key_def key_string_def paths_of_def
  CacheManager_get_def CacheManager_set_def CacheManager_def od_assign_def od_move_to_end_def
  od_delete_def attempt_def respond_def after_def strip_reserved_def quiet_world_def Let_def

subsection \<open>Every path of the loop returns\<close>

lemma after_outcome [simp]: "fst (after evs res) = fst res"
  by (simp add: after_def split: prod.splits)



subsection \<open>Images that do not open\<close>



subsection \<open>Sleeps and dispatches of the retry loop\<close>











section \<open>Claims\<close>

text \<open>
  C1 (as amended). For every sequence of \<^verbatim>\<open>try_acquire()\<close> calls on one
  \<^verbatim>\<open>ModelLimiter\<close> built with the non-negative limits \<open>r\<close> (per minute) and \<open>d\<close>
  (per day), whose clock readings \<open>ts\<close> never decrease from one call to the next, and at
  every point in time \<open>t\<close>, at most \<open>r\<close> of the granted calls have their timestamp in the
  trailing 60-second window of \<open>t\<close> and at most \<open>d\<close> in the trailing 86400-second window.
  A timestamp is in the trailing window of \<open>t\<close> when it is at most \<open>t\<close> and younger than the
  window, the test \<^verbatim>\<open>_clean_old_requests\<close> purges by.
\<close>

theorem C1_trailing_windows_bounded:
  assumes "sorted ts" "0 \<le> r" "0 \<le> d"
  shows "int (granted_within 60 t (snd (acquire_calls (ModelLimiter r d) [] ts))) \<le> r \<and>
         int (granted_within 86400 t (snd (acquire_calls (ModelLimiter r d) [] ts))) \<le> d"
  using acquire_calls_fresh [OF assms]
  by (simp add: within_limits_def minute_window_def day_window_def)

theorem C1_trailing_windows_bounded_witness:
  "sorted [0, 1, 2, 61 :: real] \<and> (0::int) \<le> 2 \<and> (0::int) \<le> 3 \<and>
   snd (acquire_calls (ModelLimiter 2 3) [] [0, 1, 2, 61]) = [0, 1, 61] \<and>
   int (granted_within 60 61 (snd (acquire_calls (ModelLimiter 2 3) [] [0, 1, 2, 61]))) \<le> 2 \<and>
   int (granted_within 86400 61 (snd (acquire_calls (ModelLimiter 2 3) [] [0, 1, 2, 61]))) \<le> 3"
proof -
  have s: "sorted [0, 1, 2, 61 :: real]" by simp
  have g: "snd (acquire_calls (ModelLimiter 2 3) [] [0, 1, 2, 61]) = [0, 1, 61]"
    by (simp add: ModelLimiter_try_acquire_def clean_old_requests_def ModelLimiter_def
        minute_window_def day_window_def Let_def)
  from C1_trailing_windows_bounded [OF s, of 2 3 61] s g show ?thesis
    by simp
qed

text \<open>
  The claim as it is written is about every sequence of calls. \<^verbatim>\<open>try_acquire\<close> reads
  \<^verbatim>\<open>time.time()\<close>, which may return a lower value than an earlier call did, and the
  purge looks at the head of the deque only. With \<open>rpm = 2\<close> and the readings 0, 1, 100
  and 58 every call is granted: the call at 100 purges the first two entries, and at 58 the
  deque holds the one entry 100, which is not older than a minute. Three grants then lie in
  the trailing 60-second window of 58.
\<close>

theorem C1_backwards_clock_counterexample:
  "snd (acquire_calls (ModelLimiter 2 30) [] [0, 1, 100, 58]) = [0, 1, 100, 58] \<and>
   granted_within 60 58 (snd (acquire_calls (ModelLimiter 2 30) [] [0, 1, 100, 58])) = 3 \<and>
   \<not> int (granted_within 60 58 (snd (acquire_calls (ModelLimiter 2 30) [] [0, 1, 100, 58]))) \<le> 2"
proof -
  have g: "snd (acquire_calls (ModelLimiter 2 30) [] [0, 1, 100, 58]) = [0, 1, 100, 58]"
    by (simp add: ModelLimiter_try_acquire_def clean_old_requests_def ModelLimiter_def
        minute_window_def day_window_def Let_def)
  have "granted_within 60 58 [0, 1, 100, 58] = 3"
    by (simp add: granted_within_def)
  with g show ?thesis by simp
qed







text \<open>
  C3 (as amended). On a cache that is enabled and has \<^verbatim>\<open>max_items\<close> at least 1,
  \<^verbatim>\<open>set(key, value)\<close> at time \<open>t\<close> returns, and a \<^verbatim>\<open>get(key)\<close> that follows it at time
  \<open>t'\<close> returns \<open>value\<close> when \<open>t' - t\<close> is at most \<^verbatim>\<open>timeout\<close>; when more than
  \<^verbatim>\<open>timeout\<close> seconds have passed it returns nothing and the key is no longer in the
  cache.
\<close>

theorem C3_set_then_get:
  assumes "enabled c" "1 \<le> max_items c"
  shows "\<exists>c'. CacheManager_set c key v t = (Inr (), c') \<and>
     (t' - t \<le> real_of_int (timeout c) \<longrightarrow> fst (CacheManager_get c' key t') = Some v) \<and>
     (t' - t > real_of_int (timeout c) \<longrightarrow>
        fst (CacheManager_get c' key t') = None \<and>
        map_of (cache (snd (CacheManager_get c' key t'))) key = None)"
proof -
  from set_enabled_returns [OF assms, of key v t] obtain kept where
    s: "CacheManager_set c key v t =
       (Inr (), c\<lparr>cache := od_move_to_end key (od_assign key (v, t) kept)\<rparr>)"
    by blast
  let ?c' = "c\<lparr>cache := od_move_to_end key (od_assign key (v, t) kept)\<rparr>"
  have look: "map_of (cache ?c') key = Some (v, t)" by simp
  have "fst (CacheManager_get ?c' key t') = Some v" if "t' - t \<le> real_of_int (timeout c)"
    using that assms(1) look by (simp add: CacheManager_get_def)
  moreover have "fst (CacheManager_get ?c' key t') = None \<and>
      map_of (cache (snd (CacheManager_get ?c' key t'))) key = None"
    if "t' - t > real_of_int (timeout c)"
    using that assms(1) look by (simp add: CacheManager_get_def)
  ultimately show ?thesis using s by blast
qed

theorem C3_set_then_get_witness:
  "enabled (CacheManager True 1 100 :: string cache_manager) \<and>
   (1::int) \<le> max_items (CacheManager True 1 100 :: string cache_manager) \<and>
   CacheManager_set (CacheManager True 1 100) ''k'' ''a'' 0 =
     (Inr (), \<lparr>cache = [(''k'', ''a'', 0)], enabled = True, timeout = 1, max_items = 100\<rparr>) \<and>
   fst (CacheManager_get
     \<lparr>cache = [(''k'', ''a'', 0)], enabled = True, timeout = 1, max_items = 100\<rparr> ''k'' (1/2)) = Some ''a'' \<and>
   CacheManager_get
     \<lparr>cache = [(''k'', ''a'', 0)], enabled = True, timeout = 1, max_items = 100\<rparr> ''k'' (11/10) =
     (None, \<lparr>cache = [], enabled = True, timeout = 1, max_items = 100\<rparr>)"
proof -
  have e: "enabled (CacheManager True 1 100 :: string cache_manager)"
    and m: "(1::int) \<le> max_items (CacheManager True 1 100 :: string cache_manager)"
    by (simp_all add: CacheManager_def)
  have s: "CacheManager_set (CacheManager True 1 100) ''k'' ''a'' 0 =
     (Inr (), \<lparr>cache = [(''k'', ''a'', 0)], enabled = True, timeout = 1, max_items = 100\<rparr>)"
    by (simp add: CacheManager_set_def CacheManager_def od_assign_def od_move_to_end_def)
  have g: "CacheManager_get
     \<lparr>cache = [(''k'', ''a'', 0)], enabled = True, timeout = 1, max_items = 100\<rparr> ''k'' (11/10) =
     (None, \<lparr>cache = [], enabled = True, timeout = 1, max_items = 100\<rparr>)"
    by (simp add: CacheManager_get_def od_delete_def)
  from C3_set_then_get [OF e m, of "''k''" "''a''" 0 "1/2"] e m s g show ?thesis
    by (simp add: CacheManager_def)
qed

text \<open>
  The claim as it is written holds for every cache. A cache built with
  \<^verbatim>\<open>CACHE_ENABLED\<close> false stores nothing: \<^verbatim>\<open>set\<close> returns at once and the
  \<^verbatim>\<open>get\<close> that follows returns nothing.
\<close>

theorem C3_disabled_counterexample:
  "fst (CacheManager_get (snd (CacheManager_set (CacheManager False 3600 100) ''k'' ''a'' 0)) ''k'' 0)
     = (None :: string option)"
  by (simp add: CacheManager_set_def CacheManager_get_def CacheManager_def)

text \<open>
  C4. After any sequence of \<^verbatim>\<open>set()\<close> and \<^verbatim>\<open>get()\<close> calls on a cache built with a
  non-negative \<^verbatim>\<open>max_items\<close>, the cache holds at most \<^verbatim>\<open>max_items\<close> entries. A
  \<^verbatim>\<open>set(key, value)\<close> that returns on the enabled cache evicts entries only when the
  cache is at \<^verbatim>\<open>max_items\<close>, every entry it evicts was last used before every entry it
  keeps, and afterwards the new entry is the last of the dictionary, behind the kept
  entries of other keys, each of which was last used before this call.
\<close>

theorem C4_capacity_and_lru:
  assumes "0 \<le> m" and "cache_calls (CacheManager en tmo m) calls = (c, used, n)"
  shows "int (length (cache c)) \<le> m \<and>
     (\<forall>key v t c'. enabled c \<and> CacheManager_set c key v t = (Inr (), c') \<longrightarrow>
        (\<exists>evicted kept. cache c = evicted @ kept \<and>
           (evicted \<noteq> [] \<longrightarrow> m \<le> int (length (cache c))) \<and>
           (\<forall>e\<in>set evicted. \<forall>e'\<in>set kept. used (fst e) < used (fst e')) \<and>
           cache c' = od_delete key kept @ [(key, v, t)] \<and>
           (\<forall>e\<in>set (od_delete key kept). used (fst e) < n) \<and>
           cache_step (c, used, n) (SetCall key v t) = (c', used(key := n), Suc n)))"
proof -
  from cache_calls_inv [OF assms(1), of en tmo calls] assms(2)
  have f: "max_items c = m" and len: "int (length (cache c)) \<le> m"
    and ro: "recency_ordered used n (cache c)"
    by (simp_all add: cache_inv_def)
  have evs: "\<forall>key v t c'. enabled c \<and> CacheManager_set c key v t = (Inr (), c') \<longrightarrow>
        (\<exists>evicted kept. cache c = evicted @ kept \<and>
           (evicted \<noteq> [] \<longrightarrow> m \<le> int (length (cache c))) \<and>
           (\<forall>e\<in>set evicted. \<forall>e'\<in>set kept. used (fst e) < used (fst e')) \<and>
           cache c' = od_delete key kept @ [(key, v, t)] \<and>
           (\<forall>e\<in>set (od_delete key kept). used (fst e) < n) \<and>
           cache_step (c, used, n) (SetCall key v t) = (c', used(key := n), Suc n))"
  proof (intro allI impI, elim conjE)
    fix key v t c'
    assume en: "enabled c" and st: "CacheManager_set c key v t = (Inr (), c')"
    from set_call_returns [OF en ro st] obtain evicted kept where
      k: "cache c = evicted @ kept" "c' = c\<lparr>cache := od_delete key kept @ [(key, v, t)]\<rparr>"
        "evicted \<noteq> [] \<longrightarrow> max_items c \<le> int (length (cache c))"
        "\<forall>e\<in>set evicted. \<forall>e'\<in>set kept. used (fst e) < used (fst e')"
      by blast
    from ro k(1) have "\<forall>e\<in>set kept. used (fst e) < n"
      by (simp add: recency_ordered_def list_all_iff)
    then have a: "\<forall>e\<in>set (od_delete key kept). used (fst e) < n"
      by (simp add: od_delete_def)
    have b: "cache_step (c, used, n) (SetCall key v t) = (c', used(key := n), Suc n)"
      using en st by simp
    have c: "cache c' = od_delete key kept @ [(key, v, t)]"
      using k(2) by simp
    have d: "evicted \<noteq> [] \<longrightarrow> m \<le> int (length (cache c))"
      using k(3) f by simp
    from k(1) d k(4) c a b
    show "\<exists>evicted kept. cache c = evicted @ kept \<and>
           (evicted \<noteq> [] \<longrightarrow> m \<le> int (length (cache c))) \<and>
           (\<forall>e\<in>set evicted. \<forall>e'\<in>set kept. used (fst e) < used (fst e')) \<and>
           cache c' = od_delete key kept @ [(key, v, t)] \<and>
           (\<forall>e\<in>set (od_delete key kept). used (fst e) < n) \<and>
           cache_step (c, used, n) (SetCall key v t) = (c', used(key := n), Suc n)"
      by (intro exI [of _ evicted] exI [of _ kept] conjI)
  qed
  from len evs show ?thesis by (rule conjI)
qed

theorem C4_capacity_and_lru_witness:
  "(0::int) \<le> 2 \<and>
   cache_calls (CacheManager True 3600 2)
      [SetCall ''a'' ''x'' 0, SetCall ''b'' ''y'' 1, GetCall ''a'' 2] =
     (\<lparr>cache = [(''b'', ''y'', 1), (''a'', ''x'', 0)], enabled = True, timeout = 3600, max_items = 2\<rparr>,
      (\<lambda>_. 0)(''a'' := 0, ''b'' := 1, ''a'' := 2), 3) \<and>
   int (length (cache \<lparr>cache = [(''b'', ''y'', 1), (''a'', ''x'', 0 :: real)],
      enabled = True, timeout = 3600, max_items = 2\<rparr>)) \<le> 2 \<and>
   CacheManager_set
     \<lparr>cache = [(''b'', ''y'', 1), (''a'', ''x'', 0)], enabled = True, timeout = 3600, max_items = 2\<rparr>
     ''c'' ''z'' 3 =
     (Inr (), \<lparr>cache = [(''a'', ''x'', 0), (''c'', ''z'', 3)], enabled = True, timeout = 3600,
        max_items = 2\<rparr>) \<and>
   [(''b'', ''y'', 1), (''a'', ''x'', 0 :: real)] = [(''b'', ''y'', 1)] @ [(''a'', ''x'', 0)] \<and>
   ((\<lambda>_. 0)(''a'' := 0, ''b'' := 1, ''a'' := 2)) ''b'' < ((\<lambda>_. 0 :: nat)(''a'' := 0, ''b'' := 1, ''a'' := 2)) ''a''"
proof -
  have run: "cache_calls (CacheManager True 3600 2)
      [SetCall ''a'' ''x'' 0, SetCall ''b'' ''y'' 1, GetCall ''a'' 2] =
     (\<lparr>cache = [(''b'', ''y'', 1), (''a'', ''x'', 0)], enabled = True, timeout = 3600, max_items = 2\<rparr>,
      (\<lambda>_. 0)(''a'' := 0, ''b'' := 1, ''a'' := 2), 3)"
    by (simp add: cache_calls_def CacheManager_def CacheManager_set_def CacheManager_get_def
        od_assign_def od_move_to_end_def od_delete_def eval_nat_numeral)
  have st: "CacheManager_set
     \<lparr>cache = [(''b'', ''y'', 1), (''a'', ''x'', 0)], enabled = True, timeout = 3600, max_items = 2\<rparr>
     ''c'' ''z'' 3 =
     (Inr (), \<lparr>cache = [(''a'', ''x'', 0), (''c'', ''z'', 3)], enabled = True, timeout = 3600,
        max_items = 2\<rparr>)"
    by (simp add: CacheManager_set_def od_assign_def od_move_to_end_def)
  from C4_capacity_and_lru [OF _ run] run st show ?thesis
    by simp
qed

text \<open>
  C10. For every question whose lowercased text contains \<^verbatim>\<open>pesquise na internet\<close> or
  \<^verbatim>\<open>pesquisa na internet\<close>, \<^verbatim>\<open>send_query\<close> returns a text, the text of the web-search
  branch, leaves the cache as it was, and every call it makes to the outside is the HTTP
  request of the search: no cache read or write, no admission request, no dispatch to the
  backend and no conversation record.
\<close>

theorem C10_web_search_bypass:
  assumes "is_web_search question"
  shows "send_query w c question image_paths max_retries =
           (Returns (fst (web_search w question)), c, snd (web_search w question)) \<and>
         list_all is_web_event (snd (web_search w question)) \<and>
         (\<forall>e\<in>set (snd (web_search w question)).
            (\<forall>k. e \<noteq> CacheGet k) \<and> (\<forall>k v. e \<noteq> CacheSet k v) \<and> e \<noteq> WaitForToken \<and>
            (\<forall>b p i. e \<noteq> Generate b p i) \<and> (\<forall>q r i t. e \<noteq> HistoryAdd q r i t))"
proof -
  have "send_query w c question image_paths max_retries =
           (Returns (fst (web_search w question)), c, snd (web_search w question))"
    using assms by (simp add: send_query_def split: prod.splits)
  moreover have all: "list_all is_web_event (snd (web_search w question))"
    by (rule web_search_events)
  moreover have "(\<forall>k. e \<noteq> CacheGet k) \<and> (\<forall>k v. e \<noteq> CacheSet k v) \<and> e \<noteq> WaitForToken \<and>
            (\<forall>b p i. e \<noteq> Generate b p i) \<and> (\<forall>q r i t. e \<noteq> HistoryAdd q r i t)"
    if "e \<in> set (snd (web_search w question))" for e
  proof -
    from all that have "is_web_event e" by (simp add: list_all_iff)
    then show ?thesis by (cases e) simp_all
  qed
  ultimately show ?thesis by blast
qed

theorem C10_web_search_bypass_witness:
  "is_web_search ''Pesquise na Internet gatos'' \<and>
   send_query quiet_world (CacheManager True 3600 100) ''Pesquise na Internet gatos'' None 3 =
     (Returns (''Resultados da pesquisa na internet:'' @ [CHR 0x0A] @ ''um'' @ [CHR 0x0A, CHR 0x0A] @
        ''dois'' @ [CHR 0x0A, CHR 0x0A] @ ''trs''),
      CacheManager True 3600 100,
      [WebGet ''https://duckduckgo.com/html/?q=gatos''])"
proof -
  have low: "py_lower ''Pesquise na Internet gatos'' = ''pesquise na internet gatos''"
    by code_simp
  have ws: "is_web_search ''Pesquise na Internet gatos''"
    unfolding is_web_search_def low by simp
  have q: "py_strip (py_remove ''pesquisa na internet''
             (py_remove ''pesquise na internet'' ''pesquise na internet gatos'')) = ''gatos''"
    by (simp add: py_strip_def is_space_def)
  have "web_search quiet_world ''Pesquise na Internet gatos'' =
     (''Resultados da pesquisa na internet:'' @ [CHR 0x0A] @ ''um'' @ [CHR 0x0A, CHR 0x0A] @
        ''dois'' @ [CHR 0x0A, CHR 0x0A] @ ''trs'',
      [WebGet ''https://duckduckgo.com/html/?q=gatos''])"
    unfolding web_search_def low q
    by (simp add: quiet_world_def duckduckgo_url_def msg_results_header_def strip_reserved_def)
  with C10_web_search_bypass [OF ws, of quiet_world "CacheManager True 3600 100" None 3] ws
  show ?thesis by simp
qed

text \<open>
  C5 (as amended). Let the question not be a web-search question and let the call to the
  conversation log return. If the cache is enabled and holds, under the fingerprint of the
  question and image list, a non-empty text that is not older than \<^verbatim>\<open>timeout\<close>, then
  \<^verbatim>\<open>send_query\<close> returns that text, and its only calls are the cache read and the record
  in the conversation log: no admission request and no dispatch to the backend. And when a
  first call misses the cache, is admitted, and gets from the backend a text that is not
  empty after the reserved characters are stripped, on an enabled cache with \<^verbatim>\<open>max_items\<close>
  at least 1, then a second call with the same question and the same image paths, times
  and sizes, made no more than \<^verbatim>\<open>timeout\<close> after the first stored its answer, returns the
  same text with no admission request and no dispatch.
\<close>

theorem C5_cache_hit_no_admission:
  assumes "\<not> is_web_search question" "hit_add_conversation w = None"
  shows "(enabled c \<and> map_of (cache c) (generate_cache_key w question image_paths) = Some (text, ts) \<and>
          cache_get_time w - ts \<le> real_of_int (timeout c) \<and> text \<noteq> [] \<longrightarrow>
            send_query w c question image_paths max_retries =
              (Returns text,
               c\<lparr>cache := od_move_to_end (generate_cache_key w question image_paths) (cache c)\<rparr>,
               [CacheGet (generate_cache_key w question image_paths),
                HistoryAdd question text image_paths (extract_tags w (question @ '' '' @ text))])) \<and>
         (getmtime w1 = getmtime w \<and> getsize w1 = getsize w \<and> md5_hexdigest w1 = md5_hexdigest w \<and>
          fst (CacheManager_get c (generate_cache_key w1 question image_paths) (cache_get_time w1)) = None \<and>
          enabled c \<and> 1 \<le> max_items c \<and> 0 < max_retries \<and>
          wait_for_token w1 0 \<and> get_recent_conversations w1 0 = Inr h \<and>
          generate_content w1 0 = Inr resp \<and> resp_text resp = Some t \<and> strip_reserved t \<noteq> [] \<and>
          add_conversation w1 0 = None \<and>
          cache_get_time w - cache_set_time w1 0 \<le> real_of_int (timeout c) \<longrightarrow>
            (\<exists>c1 evs1 c2.
               send_query w1 c question image_paths max_retries = (Returns (strip_reserved t), c1, evs1) \<and>
               send_query w c1 question image_paths max_retries =
                 (Returns (strip_reserved t), c2,
                  [CacheGet (generate_cache_key w question image_paths),
                   HistoryAdd question (strip_reserved t) image_paths
                     (extract_tags w (question @ '' '' @ strip_reserved t))])))"
proof (intro conjI impI)
  let ?key = "generate_cache_key w question image_paths"
  assume "enabled c \<and> map_of (cache c) ?key = Some (text, ts) \<and>
          cache_get_time w - ts \<le> real_of_int (timeout c) \<and> text \<noteq> []"
  then have live: "CacheManager_get c ?key (cache_get_time w) =
      (Some text, c\<lparr>cache := od_move_to_end ?key (cache c)\<rparr>)" and ne: "text \<noteq> []"
    by (simp_all add: get_live)
  from send_query_hit [OF assms(1) live ne, of max_retries] assms(2)
  show "send_query w c question image_paths max_retries =
      (Returns text, c\<lparr>cache := od_move_to_end ?key (cache c)\<rparr>,
       [CacheGet ?key, HistoryAdd question text image_paths (extract_tags w (question @ '' '' @ text))])"
    by simp
next
  let ?key = "generate_cache_key w question image_paths"
  assume h: "getmtime w1 = getmtime w \<and> getsize w1 = getsize w \<and> md5_hexdigest w1 = md5_hexdigest w \<and>
          fst (CacheManager_get c (generate_cache_key w1 question image_paths) (cache_get_time w1)) = None \<and>
          enabled c \<and> 1 \<le> max_items c \<and> 0 < max_retries \<and>
          wait_for_token w1 0 \<and> get_recent_conversations w1 0 = Inr h \<and>
          generate_content w1 0 = Inr resp \<and> resp_text resp = Some t \<and> strip_reserved t \<noteq> [] \<and>
          add_conversation w1 0 = None \<and>
          cache_get_time w - cache_set_time w1 0 \<le> real_of_int (timeout c)"
  then have same: "generate_cache_key w1 question image_paths = ?key"
    using key_string_same_metadata [of w1 w question image_paths]
    by (simp add: generate_cache_key_def)
  from h have miss: "fst (CacheManager_get c (generate_cache_key w1 question image_paths) (cache_get_time w1)) = None"
    and cfg: "enabled c" "1 \<le> max_items c" "0 < max_retries"
    and ok: "wait_for_token w1 0" "get_recent_conversations w1 0 = Inr h"
      "generate_content w1 0 = Inr resp" "resp_text resp = Some t" "strip_reserved t \<noteq> []"
      "add_conversation w1 0 = None"
    by simp_all
  note first_call_cached [OF assms(1) miss cfg ok]
  then obtain c1 evs1 where
    first: "send_query w1 c question image_paths max_retries = (Returns (strip_reserved t), c1, evs1)"
    and c1: "enabled c1" "timeout c1 = timeout c"
      "map_of (cache c1) ?key = Some (strip_reserved t, cache_set_time w1 0)"
    unfolding same by blast
  from h c1(2) have fresh: "cache_get_time w - cache_set_time w1 0 \<le> real_of_int (timeout c1)"
    by simp
  from h have ne: "strip_reserved t \<noteq> []" by simp
  note live = get_live [OF c1(1) c1(3) fresh]
  from send_query_hit [OF assms(1) live ne, of max_retries] assms(2)
  have "send_query w c1 question image_paths max_retries =
      (Returns (strip_reserved t), c1\<lparr>cache := od_move_to_end ?key (cache c1)\<rparr>,
       [CacheGet ?key, HistoryAdd question (strip_reserved t) image_paths
          (extract_tags w (question @ '' '' @ strip_reserved t))])"
    by simp
  with first show "\<exists>c1 evs1 c2.
      send_query w1 c question image_paths max_retries = (Returns (strip_reserved t), c1, evs1) \<and>
      send_query w c1 question image_paths max_retries =
        (Returns (strip_reserved t), c2,
         [CacheGet ?key, HistoryAdd question (strip_reserved t) image_paths
            (extract_tags w (question @ '' '' @ strip_reserved t))])"
    by blast
qed

theorem C5_cache_hit_no_admission_witness:
  "\<not> is_web_search ''oi'' \<and> hit_add_conversation quiet_world = None \<and>
   send_query quiet_world (CacheManager True 3600 100) ''oi'' None 3 =
     (Returns ''ok'',
      \<lparr>cache = [(''oi'', ''ok'', 0)], enabled = True, timeout = 3600, max_items = 100\<rparr>,
      [CacheGet ''oi'', WaitForToken, HistoryRecent, Generate ModelPro (build_prompt [] ''oi'') [],
       CacheSet ''oi'' ''ok'', HistoryAdd ''oi'' ''ok'' None [], SaveTempResponse ''ok'']) \<and>
   send_query quiet_world
     \<lparr>cache = [(''oi'', ''ok'', 0)], enabled = True, timeout = 3600, max_items = 100\<rparr> ''oi'' None 3 =
     (Returns ''ok'',
      \<lparr>cache = [(''oi'', ''ok'', 0)], enabled = True, timeout = 3600, max_items = 100\<rparr>,
      [CacheGet ''oi'', HistoryAdd ''oi'' ''ok'' None []])"
proof -
  have log: "hit_add_conversation quiet_world = None"
    by (simp add: quiet_world_def)
  have first: "send_query quiet_world (CacheManager True 3600 100) ''oi'' None 3 =
     (Returns ''ok'',
      \<lparr>cache = [(''oi'', ''ok'', 0)], enabled = True, timeout = 3600, max_items = 100\<rparr>,
      [CacheGet ''oi'', WaitForToken, HistoryRecent, Generate ModelPro (build_prompt [] ''oi'') [],
       CacheSet ''oi'' ''ok'', HistoryAdd ''oi'' ''ok'' None [], SaveTempResponse ''ok''])"
    using not_web_oi by (simp add: run_defs retry_loop.simps [of _ _ _ _ _ _ 0])
  have second: "send_query quiet_world
     \<lparr>cache = [(''oi'', ''ok'', 0)], enabled = True, timeout = 3600, max_items = 100\<rparr> ''oi'' None 3 =
     (Returns ''ok'',
      \<lparr>cache = [(''oi'', ''ok'', 0)], enabled = True, timeout = 3600, max_items = 100\<rparr>,
      [CacheGet ''oi'', HistoryAdd ''oi'' ''ok'' None []])"
    using not_web_oi by (simp add: run_defs)
  from C5_cache_hit_no_admission [OF not_web_oi log] not_web_oi log first second
  show ?thesis by simp
qed

text \<open>
  The claim as it is written covers every live cache entry. \<^verbatim>\<open>send_query\<close> tests the
  cached text with \<^verbatim>\<open>if cached_response:\<close>, which is false for the empty text. A backend
  answer made of reserved characters only, such as \<^verbatim>\<open>*\<close>, is stored as the empty text;
  the second of two identical calls then finds the live entry, treats it as a miss, asks for
  admission and dispatches to the backend again.
\<close>

theorem C5_empty_text_counterexample:
  "send_query
     (quiet_world\<lparr>generate_content := \<lambda>r. Inr \<lparr>resp_text = Some ''*'', resp_candidates = []\<rparr>\<rparr>)
     (CacheManager True 3600 100) ''oi'' None 3 =
     (Returns [],
      \<lparr>cache = [(''oi'', [], 0)], enabled = True, timeout = 3600, max_items = 100\<rparr>,
      [CacheGet ''oi'', WaitForToken, HistoryRecent, Generate ModelPro (build_prompt [] ''oi'') [],
       CacheSet ''oi'' [], HistoryAdd ''oi'' [] None [], SaveTempResponse []]) \<and>
   CacheManager_get
     \<lparr>cache = [(''oi'', [], 0)], enabled = True, timeout = 3600, max_items = 100\<rparr> ''oi'' 0 =
     (Some [], \<lparr>cache = [(''oi'', [], 0)], enabled = True, timeout = 3600, max_items = 100\<rparr>) \<and>
   send_query
     (quiet_world\<lparr>generate_content := \<lambda>r. Inr \<lparr>resp_text = Some ''*'', resp_candidates = []\<rparr>\<rparr>)
     \<lparr>cache = [(''oi'', [], 0)], enabled = True, timeout = 3600, max_items = 100\<rparr> ''oi'' None 3 =
     (Returns [],
      \<lparr>cache = [(''oi'', [], 0)], enabled = True, timeout = 3600, max_items = 100\<rparr>,
      [CacheGet ''oi'', WaitForToken, HistoryRecent, Generate ModelPro (build_prompt [] ''oi'') [],
       CacheSet ''oi'' [], HistoryAdd ''oi'' [] None [], SaveTempResponse []])"
  using not_web_oi by (simp add: run_defs retry_loop.simps [of _ _ _ _ _ _ 0])

text \<open>
  C9 at the failing input: the cache holds a live text for the question and the
  conversation log raises. On the hit path the exception leaves \<^verbatim>\<open>send_query\<close>.
\<close>

theorem C9_log_failure_on_hit_raises:
  "send_query (quiet_world\<lparr>hit_add_conversation := Some ''database is locked''\<rparr>)
     \<lparr>cache = [(''oi'', ''ok'', 0)], enabled = True, timeout = 3600, max_items = 100\<rparr> ''oi'' None 3 =
     (Raises ''database is locked'',
      \<lparr>cache = [(''oi'', ''ok'', 0)], enabled = True, timeout = 3600, max_items = 100\<rparr>,
      [CacheGet ''oi'', HistoryAdd ''oi'' ''ok'' None []])"
  using not_web_oi by (simp add: run_defs)






end
